theory Spec2Isabelle
  imports Main "HOL-Library.Word" "HOL-Library.DAList" "HOL-Library.Multiset"
begin

section \<open>The line patterns of \<open>examineFile\<close>\<close>

text \<open>
  \<open>examineFile\<close> compiles four regular expressions and applies each of them, with
  \<open>FindStringSubmatch\<close>, to every line of the disassembly.  All four are anchored at
  both ends (\<open>^ ... $\<close>, no multi-line flag) and are sequences of single character
  classes, each taken once, one or more times (\<open>+\<close>) or zero or more times (\<open>*\<close>),
  some of them inside a capturing group.  The matcher below is the backtracking
  search over such a sequence: every repetition is greedy, so the longest run is
  tried first and shortened one character at a time; the first split that lets the
  rest of the pattern reach the end of the line is the match, which is the match Go's
  \<open>regexp\<close> reports (leftmost-first).

  Go matches code points and the model matches bytes.  For these patterns the two
  agree: \<open>\s\<close> is the ASCII set \<open>[\t\n\f\r ]\<close>, every literal is ASCII, and the
  bytes of a longer code point all lie outside that set and are not the newline.
\<close>

datatype cclass = Lit char | Space | NonSpace | AnyChar

datatype quant = Once | OneOrMore | ZeroOrMore

datatype node = Match cclass quant | Capture cclass quant

definition is_space :: "char \<Rightarrow> bool" where
  "is_space x = (x = CHR 0x09 \<or> x = CHR 0x0A \<or> x = CHR 0x0C \<or> x = CHR 0x0D \<or> x = CHR '' '')"

fun in_class :: "cclass \<Rightarrow> char \<Rightarrow> bool" where
  "in_class (Lit c) x = (x = c)"
| "in_class Space x = is_space x"
| "in_class NonSpace x = (\<not> is_space x)"
| "in_class AnyChar x = (x \<noteq> CHR 0x0A)"

fun min_len :: "quant \<Rightarrow> nat" where
  "min_len Once = 1"
| "min_len OneOrMore = 1"
| "min_len ZeroOrMore = 0"

fun max_len :: "quant \<Rightarrow> nat \<Rightarrow> nat" where
  "max_len Once run = min 1 run"
| "max_len OneOrMore run = run"
| "max_len ZeroOrMore run = run"

text \<open>
  \<open>try_lengths cont cap s lo k\<close> gives the node the first \<open>k\<close> characters of \<open>s\<close>,
  then \<open>k - 1\<close>, down to \<open>lo\<close>, and returns the groups of the first attempt on which
  the rest of the pattern (\<open>cont\<close>) matches the rest of the line.
\<close>

fun try_lengths ::
  "(string \<Rightarrow> string list option) \<Rightarrow> bool \<Rightarrow> string \<Rightarrow> nat \<Rightarrow> nat \<Rightarrow> string list option" where
  "try_lengths cont cap s lo 0 =
     (if lo = 0
      then (case cont s of
              Some gs \<Rightarrow> Some (if cap then [] # gs else gs)
            | None \<Rightarrow> None)
      else None)"
| "try_lengths cont cap s lo (Suc k) =
     (if Suc k < lo then None
      else (case cont (drop (Suc k) s) of
              Some gs \<Rightarrow> Some (if cap then take (Suc k) s # gs else gs)
            | None \<Rightarrow> try_lengths cont cap s lo k))"

fun node_class :: "node \<Rightarrow> cclass" where
  "node_class (Match c q) = c"
| "node_class (Capture c q) = c"

fun node_quant :: "node \<Rightarrow> quant" where
  "node_quant (Match c q) = q"
| "node_quant (Capture c q) = q"

fun captures :: "node \<Rightarrow> bool" where
  "captures (Match c q) = False"
| "captures (Capture c q) = True"

primrec rmatch :: "node list \<Rightarrow> string \<Rightarrow> string list option" where
  "rmatch [] = (\<lambda>s. if s = [] then Some [] else None)"
| "rmatch (n # ns) =
     (\<lambda>s. try_lengths (rmatch ns) (captures n) s (min_len (node_quant n))
            (max_len (node_quant n) (length (takeWhile (in_class (node_class n)) s))))"

text \<open>
  \<open>FindStringSubmatch\<close>: \<open>nil\<close> when the line does not match, else the whole match
  (here the whole line) followed by the text of each group.
\<close>

definition FindStringSubmatch :: "node list \<Rightarrow> string \<Rightarrow> string list option" where
  "FindStringSubmatch re s = map_option (\<lambda>gs. s # gs) (rmatch re s)"

definition lits :: "string \<Rightarrow> node list" where
  "lits s = map (\<lambda>c. Match (Lit c) Once) s"

text \<open>
  The pattern of a function's first line, \<^verbatim>\<open>^\S+\s<(\S+)>:\s*$\<close>.  (The source
  writes a backslash before \<open><\<close>, \<open>>\<close> and \<open>:\<close>, here and below; Go reads an
  escaped punctuation character as the character itself.)
\<close>

definition fnstart :: "node list" where
  "fnstart =
     [Match NonSpace OneOrMore, Match Space Once] @ lits ''<'' @
     [Capture NonSpace OneOrMore] @ lits ''>:'' @ [Match Space ZeroOrMore]"

text \<open>Any call instruction, \<^verbatim>\<open>^\s*\S+:\s+callq(.+)$\<close>.\<close>

definition anycallre :: "node list" where
  "anycallre =
     [Match Space ZeroOrMore, Match NonSpace OneOrMore] @ lits '':'' @
     [Match Space OneOrMore] @ lits ''callq'' @ [Capture AnyChar OneOrMore]"

text \<open>A call of a named symbol, \<^verbatim>\<open>^\s*\S+:\s+callq\s+\S+\s+<(\S+)>\s*$\<close>.\<close>

definition dircallre :: "node list" where
  "dircallre =
     [Match Space ZeroOrMore, Match NonSpace OneOrMore] @ lits '':'' @
     [Match Space OneOrMore] @ lits ''callq'' @
     [Match Space OneOrMore, Match NonSpace OneOrMore, Match Space OneOrMore] @ lits ''<'' @
     [Capture NonSpace OneOrMore] @ lits ''>'' @ [Match Space ZeroOrMore]"

text \<open>A jump to a PLT entry, \<^verbatim>\<open>^\s*\S+:\s+jmpq\s+\S+\s+<\S+@plt>\s*$\<close>.\<close>

definition pltjumpre :: "node list" where
  "pltjumpre =
     [Match Space ZeroOrMore, Match NonSpace OneOrMore] @ lits '':'' @
     [Match Space OneOrMore] @ lits ''jmpq'' @
     [Match Space OneOrMore, Match NonSpace OneOrMore, Match Space OneOrMore] @ lits ''<'' @
     [Match NonSpace OneOrMore] @ lits ''@plt>'' @ [Match Space ZeroOrMore]"

section \<open>The accumulator state\<close>

text \<open>
  \<open>FnType\<close> is an \<open>int\<close> whose constants are numbered by \<open>iota\<close>; \<open>fnval\<close> is that
  number, which \<open>recordFunc\<close> compares.
\<close>

datatype FnType = Unknown | Leaf | NoSplit | SplitSmall | SplitLarge

fun fnval :: "FnType \<Rightarrow> int" where
  "fnval Unknown = 0"
| "fnval Leaf = 1"
| "fnval NoSplit = 2"
| "fnval SplitSmall = 3"
| "fnval SplitLarge = 4"

text \<open>
  The table \<open>funcs\<close> is a Go map: its keys are unique, which the type of association
  lists with distinct keys keeps.  The order of the entries is the order of insertion;
  Go ranges over a map in no fixed order, and nothing below depends on the order
  except which entry a fatal error would name.  \<open>collisions\<close> is an \<open>int64\<close>.
\<close>

record astate =
  seenShort :: bool
  seenLong :: bool
  seenCall :: bool
  funcs :: "(string, FnType) alist"
  collisions :: "64 word"

text \<open>\<open>%d\<close> of \<open>fmt.Sprintf\<close>: the decimal digits, after a minus sign below zero.\<close>

fun digits :: "nat \<Rightarrow> string" where
  "digits n =
     (if n < 10 then [''0123456789'' ! n]
      else digits (n div 10) @ [''0123456789'' ! (n mod 10)])"

declare digits.simps [simp del]

definition fmt_d :: "int \<Rightarrow> string" where
  "fmt_d i = (if i < 0 then ''-'' @ digits (nat (- i)) else digits (nat i))"

text \<open>The category \<open>recordFunc\<close> computes from the three flags (its first lines).\<close>

definition disposition :: "astate \<Rightarrow> FnType" where
  "disposition s =
     (if seenLong s then SplitLarge
      else if seenShort s then SplitSmall
      else if seenCall s then NoSplit
      else Leaf)"

definition recordFunc :: "astate \<Rightarrow> string \<Rightarrow> astate" where
  "recordFunc s fname =
     (let disp = disposition s in
      (case DAList.lookup (funcs s) fname of
         Some odisp \<Rightarrow>
           (let c = collisions s + 1;
                fname' = fname @ ''%'' @ fmt_d (sint c);
                disp' = (if fnval odisp > fnval disp then odisp else disp)
            in s\<lparr>collisions := c, funcs := DAList.update fname' disp' (funcs s),
                 seenLong := False, seenShort := False, seenCall := False\<rparr>)
       | None \<Rightarrow>
           s\<lparr>funcs := DAList.update fname disp (funcs s),
             seenLong := False, seenShort := False, seenCall := False\<rparr>))"

section \<open>The scan of the disassembly\<close>

text \<open>
  One turn of the loop over the lines: the state and the local \<open>curfunc\<close> before the
  line, and after it.  The four patterns are tried in the order of the source; the
  generic call pattern only when the direct call pattern did not match.
\<close>

definition scan_line :: "astate \<times> string \<Rightarrow> string \<Rightarrow> astate \<times> string" where
  "scan_line sc line =
     (let (s, curfunc) = sc;
          (s1, curfunc1) =
            (case FindStringSubmatch fnstart line of
               Some matched \<Rightarrow>
                 ((if curfunc \<noteq> '''' then recordFunc s curfunc else s), matched ! 1)
             | None \<Rightarrow> (s, curfunc));
          s2 = (case FindStringSubmatch pltjumpre line of
                  Some pltjumpmatch \<Rightarrow> s1\<lparr>seenCall := True\<rparr>
                | None \<Rightarrow> s1);
          s3 = (case FindStringSubmatch dircallre line of
                  Some dircallmatch \<Rightarrow>
                    (let tgt = dircallmatch ! 1;
                         s' = s2\<lparr>seenCall := True\<rparr>
                     in if tgt = ''__morestack'' then s'\<lparr>seenShort := True\<rparr>
                        else if tgt = ''__morestack_non_split'' then s'\<lparr>seenLong := True\<rparr>
                        else s')
                | None \<Rightarrow>
                    (case FindStringSubmatch anycallre line of
                       Some anycallmatch \<Rightarrow> s2\<lparr>seenCall := True\<rparr>
                     | None \<Rightarrow> s2))
      in (s3, curfunc1))"

text \<open>\<open>var state astate; state.funcs = make(map[string]FnType); curfunc := ""\<close>\<close>

definition init_state :: astate where
  "init_state =
     \<lparr>seenShort = False, seenLong = False, seenCall = False,
      funcs = DAList.empty, collisions = 0\<rparr>"

definition scan_lines :: "string list \<Rightarrow> astate \<times> string" where
  "scan_lines lines = foldl scan_line (init_state, '''') lines"

text \<open>After the loop: the final function is recorded when one is open.\<close>

definition final_state :: "string list \<Rightarrow> astate" where
  "final_state lines =
     (let (s, curfunc) = scan_lines lines
      in if curfunc \<noteq> '''' then recordFunc s curfunc else s)"

section \<open>The aggregation\<close>

text \<open>
  \<open>analyze\<close> ranges over the table and adds one to the tally of the entry's
  category; on \<open>Unknown\<close> it calls \<open>log.Fatalf\<close>, which ends the process: the
  result is then the message (\<open>Inl\<close>).  The four tallies are \<open>int64\<close>.
\<close>

type_synonym tallies = "64 word \<times> 64 word \<times> 64 word \<times> 64 word"

fun analyze_loop :: "(string \<times> FnType) list \<Rightarrow> tallies \<Rightarrow> string + tallies" where
  "analyze_loop [] t = Inr t"
| "analyze_loop ((fn, disp) # es) (lv, ns, short, long) =
     (case disp of
        Unknown \<Rightarrow> Inl (''corrupted funcs table entry at '' @ fn)
      | Leaf \<Rightarrow> analyze_loop es (lv + 1, ns, short, long)
      | NoSplit \<Rightarrow> analyze_loop es (lv, ns + 1, short, long)
      | SplitSmall \<Rightarrow> analyze_loop es (lv, ns, short + 1, long)
      | SplitLarge \<Rightarrow> analyze_loop es (lv, ns, short, long + 1))"

definition analyze :: "astate \<Rightarrow> string + tallies" where
  "analyze s = analyze_loop (DAList.impl_of (funcs s)) (0, 0, 0, 0)"

text \<open>
  \<open>examineFile\<close>, from the lines the scanner delivers to the counts it prints: the
  ELF check, the \<open>objdump\<close> process and the printing are outside the model.
\<close>

definition examineFile :: "string list \<Rightarrow> string + tallies" where
  "examineFile lines = analyze (final_state lines)"

section \<open>The vocabulary of the specification\<close>

text \<open>
  A line matches a pattern when \<open>FindStringSubmatch\<close> does not return \<open>nil\<close>.  A
  direct-call line targeting \<open>tgt\<close> is a line that matches \<open>dircallre\<close> with
  \<open>tgt\<close> as its group; a call-relevant line is one on which \<open>examineFile\<close> sets
  \<open>seenCall\<close>: a PLT jump, a direct call or any other call.
\<close>

definition matches :: "node list \<Rightarrow> string \<Rightarrow> bool" where
  "matches re l = (case FindStringSubmatch re l of Some m \<Rightarrow> True | None \<Rightarrow> False)"

definition calls :: "string \<Rightarrow> string \<Rightarrow> bool" where
  "calls l tgt = (case FindStringSubmatch dircallre l of Some m \<Rightarrow> m ! 1 = tgt | None \<Rightarrow> False)"

definition is_call_line :: "string \<Rightarrow> bool" where
  "is_call_line l = (matches pltjumpre l \<or> matches dircallre l \<or> matches anycallre l)"

text \<open>
  The category the specification gives a function, from the lines of its body (the
  lines after its first line, up to the next function's first line).
\<close>

definition spec_category :: "string list \<Rightarrow> FnType" where
  "spec_category body =
     (if list_ex (\<lambda>l. calls l ''__morestack_non_split'') body then SplitLarge
      else if list_ex (\<lambda>l. calls l ''__morestack'') body then SplitSmall
      else if list_ex is_call_line body then NoSplit
      else Leaf)"

text \<open>
  The larger of two categories in the order the specification gives,
  \<open>Leaf < NoSplit < SplitSmall < SplitLarge\<close>, with the sentinel \<open>Unknown\<close> below
  all four.
\<close>

definition spec_max :: "FnType \<Rightarrow> FnType \<Rightarrow> FnType" where
  "spec_max a b =
     (if a = SplitLarge \<or> b = SplitLarge then SplitLarge
      else if a = SplitSmall \<or> b = SplitSmall then SplitSmall
      else if a = NoSplit \<or> b = NoSplit then NoSplit
      else if a = Leaf \<or> b = Leaf then Leaf
      else Unknown)"

text \<open>
  A collision is the recording of a function whose name is in the table already.  In
  the loop that happens on a function's first line, when a function is open and its
  name is in the table; \<open>count_collisions\<close> is the number of collisions in the loop
  over the lines, counted from the table alone.
\<close>

definition collides :: "astate \<times> string \<Rightarrow> string \<Rightarrow> bool" where
  "collides sc l =
     (matches fnstart l \<and> snd sc \<noteq> '''' \<and> DAList.lookup (funcs (fst sc)) (snd sc) \<noteq> None)"

fun collisions_from :: "astate \<times> string \<Rightarrow> string list \<Rightarrow> nat" where
  "collisions_from sc [] = 0"
| "collisions_from sc (l # ls) =
     (if collides sc l then 1 else 0) + collisions_from (scan_line sc l) ls"

definition count_collisions :: "string list \<Rightarrow> nat" where
  "count_collisions ls = collisions_from (init_state, '''') ls"

text \<open>
  The text of a line from its second word on: after the leading white space, the
  first word and the white space that follows it.  It tells the four patterns apart.
\<close>

definition second_word :: "string \<Rightarrow> string" where
  "second_word s = dropWhile is_space (dropWhile (\<lambda>x. \<not> is_space x) (dropWhile is_space s))"

section \<open>What a match says about the line\<close>

declare rmatch.simps(2) [simp del]

lemma try_lengths_SomeD:
  "try_lengths cont cap s lo k = Some gs \<Longrightarrow>
   \<exists>j gs'. lo \<le> j \<and> j \<le> k \<and> cont (drop j s) = Some gs' \<and>
            gs = (if cap then take j s # gs' else gs')"
proof (induction k)
  case 0
  then show ?case by (auto split: if_splits option.splits)
next
  case (Suc k)
  show ?case
  proof (cases "cont (drop (Suc k) s)")
    case None
    with Suc.prems have "try_lengths cont cap s lo k = Some gs"
      by (simp split: if_splits)
    from Suc.IH [OF this] obtain j gs' where "lo \<le> j" "j \<le> k"
      "cont (drop j s) = Some gs'" "gs = (if cap then take j s # gs' else gs')"
      by blast
    then have "lo \<le> j \<and> j \<le> Suc k \<and> cont (drop j s) = Some gs' \<and>
      gs = (if cap then take j s # gs' else gs')"
      by simp
    then show ?thesis by blast
  next
    case (Some gs')
    with Suc.prems show ?thesis
      by (auto split: if_splits intro!: exI [of _ "Suc k"])
  qed
qed

lemma take_run_in_class:
  "j \<le> length (takeWhile P s) \<Longrightarrow> x \<in> set (take j s) \<Longrightarrow> P x"
proof (induction s arbitrary: j)
  case Nil
  then show ?case by simp
next
  case (Cons y ys)
  then show ?case by (cases j) (auto split: if_splits)
qed

lemma rmatch_node_SomeD:
  assumes "rmatch (n # ns) s = Some gs"
  shows "\<exists>a b gs'. s = a @ b \<and> (\<forall>x\<in>set a. in_class (node_class n) x) \<and>
           min_len (node_quant n) \<le> length a \<and>
           (node_quant n = Once \<longrightarrow> length a = 1) \<and>
           rmatch ns b = Some gs' \<and> gs = (if captures n then a # gs' else gs')"
proof -
  let ?run = "length (takeWhile (in_class (node_class n)) s)"
  from assms obtain j gs' where j: "min_len (node_quant n) \<le> j"
    "j \<le> max_len (node_quant n) ?run"
    "rmatch ns (drop j s) = Some gs'" "gs = (if captures n then take j s # gs' else gs')"
    unfolding rmatch.simps by (blast dest: try_lengths_SomeD)
  have run: "j \<le> ?run" and once: "node_quant n = Once \<longrightarrow> j = 1"
    using j(1,2) by (cases "node_quant n"; simp)+
  have len: "length (take j s) = j"
    using run length_takeWhile_le [of "in_class (node_class n)" s] by simp
  have "s = take j s @ drop j s" by simp
  moreover have "\<forall>x\<in>set (take j s). in_class (node_class n) x"
    using take_run_in_class [OF run] by blast
  ultimately show ?thesis using j(1,3,4) once len by metis
qed

lemma rmatch_star:
  assumes "rmatch (Match c ZeroOrMore # ns) s = Some gs"
  obtains a b where "s = a @ b" "\<forall>x\<in>set a. in_class c x" "rmatch ns b = Some gs"
  using rmatch_node_SomeD [OF assms] by auto

lemma rmatch_plus:
  assumes "rmatch (Match c OneOrMore # ns) s = Some gs"
  obtains x a b where "s = x # a @ b" "in_class c x" "\<forall>y\<in>set a. in_class c y"
    "rmatch ns b = Some gs"
proof -
  from rmatch_node_SomeD [OF assms] obtain a b where
    ab: "s = a @ b" "\<forall>x\<in>set a. in_class c x" "1 \<le> length a" "rmatch ns b = Some gs"
    by auto
  then obtain x a' where "a = x # a'" by (cases a) auto
  with ab that show thesis by auto
qed

lemma rmatch_once:
  assumes "rmatch (Match c Once # ns) s = Some gs"
  obtains x b where "s = x # b" "in_class c x" "rmatch ns b = Some gs"
proof -
  from rmatch_node_SomeD [OF assms] obtain a b where
    ab: "s = a @ b" "\<forall>x\<in>set a. in_class c x" "length a = 1" "rmatch ns b = Some gs"
    by auto
  then obtain x where "a = [x]" by (cases a) auto
  with ab that show thesis by auto
qed

text \<open>
  The three instruction patterns begin alike, \<open>\s*\S+:\s+\<close>, and then name the
  instruction; the pattern of a function's first line has \<open><\<close> where they have the
  instruction.
\<close>

lemma insn_prefix_second_word:
  assumes m: "rmatch (Match Space ZeroOrMore # Match NonSpace OneOrMore #
                Match (Lit CHR '':'') Once # Match Space OneOrMore #
                Match (Lit x) Once # ns) s = Some gs"
    and x: "\<not> is_space x"
  shows "\<exists>t. second_word s = x # t"
proof -
  from m obtain a s1 where s: "s = a @ s1" "\<forall>x\<in>set a. is_space x" and
    m1: "rmatch (Match NonSpace OneOrMore # Match (Lit CHR '':'') Once #
              Match Space OneOrMore # Match (Lit x) Once # ns) s1 = Some gs"
    by (rule rmatch_star) auto
  from m1 obtain x1 a1 s2 where s1: "s1 = x1 # a1 @ s2" "\<not> is_space x1"
    "\<forall>x\<in>set a1. \<not> is_space x" and
    m2: "rmatch (Match (Lit CHR '':'') Once #
              Match Space OneOrMore # Match (Lit x) Once # ns) s2 = Some gs"
    by (rule rmatch_plus) auto
  from m2 obtain s3 where s2: "s2 = CHR '':'' # s3" and
    m3: "rmatch (Match Space OneOrMore # Match (Lit x) Once # ns) s3 = Some gs"
    by (rule rmatch_once) auto
  from m3 obtain y a3 s4 where s3: "s3 = y # a3 @ s4" "is_space y"
    "\<forall>x\<in>set a3. is_space x" and
    m4: "rmatch (Match (Lit x) Once # ns) s4 = Some gs"
    by (rule rmatch_plus) auto
  from m4 obtain t where s4: "s4 = x # t"
    by (rule rmatch_once) auto
  have c: "\<not> is_space CHR '':''" by (simp add: is_space_def)
  show ?thesis
    unfolding second_word_def s s1 s2 s3 s4
    using s(2) s1(2,3) s3(2,3) x c by (simp add: dropWhile_append2)
qed

lemma start_prefix_second_word:
  assumes m: "rmatch (Match NonSpace OneOrMore # Match Space Once #
                Match (Lit x) Once # ns) s = Some gs"
    and x: "\<not> is_space x"
  shows "\<exists>t. second_word s = x # t"
proof -
  from m obtain x1 a1 s1 where s: "s = x1 # a1 @ s1" "\<not> is_space x1"
    "\<forall>x\<in>set a1. \<not> is_space x" and
    m1: "rmatch (Match Space Once # Match (Lit x) Once # ns) s1 = Some gs"
    by (rule rmatch_plus) auto
  from m1 obtain y s2 where s1: "s1 = y # s2" "is_space y" and
    m2: "rmatch (Match (Lit x) Once # ns) s2 = Some gs"
    by (rule rmatch_once) auto
  from m2 obtain t where s2: "s2 = x # t"
    by (rule rmatch_once) auto
  show ?thesis
    unfolding second_word_def s s1 s2
    using s(2,3) s1(2) x by (simp add: dropWhile_append2)
qed

lemma pltjump_second_word:
  "rmatch pltjumpre s = Some gs \<Longrightarrow> \<exists>t. second_word s = CHR ''j'' # t"
  by (rule insn_prefix_second_word [where ns = "tl (lits ''jmpq'') @ _"])
     (simp_all add: pltjumpre_def lits_def is_space_def)

lemma dircall_second_word:
  "rmatch dircallre s = Some gs \<Longrightarrow> \<exists>t. second_word s = CHR ''c'' # t"
  by (rule insn_prefix_second_word [where ns = "tl (lits ''callq'') @ _"])
     (simp_all add: dircallre_def lits_def is_space_def)

lemma anycall_second_word:
  "rmatch anycallre s = Some gs \<Longrightarrow> \<exists>t. second_word s = CHR ''c'' # t"
  by (rule insn_prefix_second_word [where ns = "tl (lits ''callq'') @ _"])
     (simp_all add: anycallre_def lits_def is_space_def)

lemma fnstart_second_word:
  "rmatch fnstart s = Some gs \<Longrightarrow> \<exists>t. second_word s = CHR ''<'' # t"
  by (rule start_prefix_second_word [where ns = "_"])
     (simp_all add: fnstart_def lits_def is_space_def)

text \<open>No line matches two of: a function's first line, a PLT jump, a call.\<close>

lemma matches_iff: "matches re l \<longleftrightarrow> (\<exists>gs. rmatch re l = Some gs)"
  by (cases "rmatch re l") (simp_all add: matches_def FindStringSubmatch_def)

lemma second_word_hd:
  "matches fnstart l \<Longrightarrow> hd (second_word l) = CHR ''<''"
  "matches pltjumpre l \<Longrightarrow> hd (second_word l) = CHR ''j''"
  "matches dircallre l \<Longrightarrow> hd (second_word l) = CHR ''c''"
  "matches anycallre l \<Longrightarrow> hd (second_word l) = CHR ''c''"
  by (auto simp: matches_iff
      dest!: fnstart_second_word pltjump_second_word dircall_second_word anycall_second_word)

lemma fnstart_no_insn:
  assumes "matches fnstart l"
  shows "\<not> matches pltjumpre l" "\<not> matches dircallre l" "\<not> matches anycallre l"
  using assms second_word_hd [of l] by auto

lemma pltjump_no_call:
  assumes "matches pltjumpre l"
  shows "\<not> matches fnstart l" "\<not> matches dircallre l" "\<not> matches anycallre l"
  using assms second_word_hd [of l] by auto

text \<open>The group of a function's first line is the only group, and it is not empty.\<close>

lemma rmatch_capture_plus:
  assumes "rmatch (Capture c OneOrMore # ns) s = Some gs"
  obtains x a b gs' where "s = x # a @ b" "rmatch ns b = Some gs'" "gs = (x # a) # gs'"
proof -
  from rmatch_node_SomeD [OF assms] obtain a b gs' where
    ab: "s = a @ b" "1 \<le> length a" "rmatch ns b = Some gs'" "gs = a # gs'"
    by auto
  then obtain x a' where "a = x # a'" by (cases a) auto
  with ab that show thesis by auto
qed

lemma rmatch_Nil_SomeD: "rmatch [] s = Some gs \<Longrightarrow> gs = []"
  by (simp split: if_splits)

lemma fnstart_groups:
  assumes "FindStringSubmatch fnstart l = Some m"
  shows "\<exists>name. m = [l, name] \<and> name \<noteq> ''''"
proof -
  from assms obtain gs where m: "m = l # gs" and
    r: "rmatch (Match NonSpace OneOrMore # Match Space Once # Match (Lit CHR ''<'') Once #
          Capture NonSpace OneOrMore # Match (Lit CHR ''>'') Once # Match (Lit CHR '':'') Once #
          [Match Space ZeroOrMore]) l = Some gs"
    by (auto simp: FindStringSubmatch_def fnstart_def lits_def)
  from r obtain s1 where "rmatch (Match Space Once # Match (Lit CHR ''<'') Once #
          Capture NonSpace OneOrMore # Match (Lit CHR ''>'') Once # Match (Lit CHR '':'') Once #
          [Match Space ZeroOrMore]) s1 = Some gs"
    by (rule rmatch_plus)
  then obtain s2 where "rmatch (Match (Lit CHR ''<'') Once #
          Capture NonSpace OneOrMore # Match (Lit CHR ''>'') Once # Match (Lit CHR '':'') Once #
          [Match Space ZeroOrMore]) s2 = Some gs"
    by (rule rmatch_once)
  then obtain s3 where "rmatch (
          Capture NonSpace OneOrMore # Match (Lit CHR ''>'') Once # Match (Lit CHR '':'') Once #
          [Match Space ZeroOrMore]) s3 = Some gs"
    by (rule rmatch_once)
  then obtain x a s4 gs' where g: "gs = (x # a) # gs'" and
    r4: "rmatch (Match (Lit CHR ''>'') Once # Match (Lit CHR '':'') Once #
          [Match Space ZeroOrMore]) s4 = Some gs'"
    by (rule rmatch_capture_plus)
  from r4 obtain s5 where "rmatch (Match (Lit CHR '':'') Once #
          [Match Space ZeroOrMore]) s5 = Some gs'"
    by (rule rmatch_once)
  then obtain s6 where "rmatch [Match Space ZeroOrMore] s6 = Some gs'"
    by (rule rmatch_once)
  then obtain s7 where "rmatch [] s7 = Some gs'"
    by (rule rmatch_star)
  then have "gs' = []" by (rule rmatch_Nil_SomeD)
  with m g show ?thesis by simp
qed

section \<open>The loop, line by line\<close>

text \<open>
  A line that is not a function's first line only sets flags; the table, the counter
  and \<open>curfunc\<close> stay as they are.
\<close>

lemma scan_line_body:
  assumes "\<not> matches fnstart l"
  shows "scan_line (s, cur) l =
    (s\<lparr>seenCall := seenCall s \<or> is_call_line l,
       seenShort := seenShort s \<or> calls l ''__morestack'',
       seenLong := seenLong s \<or> calls l ''__morestack_non_split''\<rparr>, cur)"
  using assms
  by (cases "FindStringSubmatch fnstart l"; cases "FindStringSubmatch pltjumpre l";
      cases "FindStringSubmatch dircallre l"; cases "FindStringSubmatch anycallre l")
     (simp_all add: scan_line_def matches_def calls_def is_call_line_def Let_def)

text \<open>
  A function's first line records the open function, if there is one, and opens the
  new one; it matches no other pattern, so it sets no flag.
\<close>

lemma scan_line_fnstart:
  assumes "FindStringSubmatch fnstart l = Some m"
  shows "scan_line (s, cur) l = ((if cur \<noteq> '''' then recordFunc s cur else s), m ! 1)"
proof -
  have "matches fnstart l" using assms by (simp add: matches_def)
  from fnstart_no_insn [OF this] have
    "FindStringSubmatch pltjumpre l = None" "FindStringSubmatch dircallre l = None"
    "FindStringSubmatch anycallre l = None"
    by (auto simp: matches_def split: option.splits)
  with assms show ?thesis by (simp add: scan_line_def)
qed

lemma scan_body:
  assumes "\<forall>l\<in>set body. \<not> matches fnstart l"
  shows "foldl scan_line (s, cur) body =
    (s\<lparr>seenCall := seenCall s \<or> list_ex is_call_line body,
       seenShort := seenShort s \<or> list_ex (\<lambda>l. calls l ''__morestack'') body,
       seenLong := seenLong s \<or> list_ex (\<lambda>l. calls l ''__morestack_non_split'') body\<rparr>, cur)"
  using assms
proof (induction body arbitrary: s)
  case Nil
  then show ?case by simp
next
  case (Cons l body)
  then show ?case by (simp add: scan_line_body disj_assoc)
qed

lemma recordFunc_flags [simp]:
  "seenShort (recordFunc s f) = False" "seenLong (recordFunc s f) = False"
  "seenCall (recordFunc s f) = False"
  by (simp_all add: recordFunc_def Let_def split: option.splits)

lemma disposition_flags:
  "disposition (s\<lparr>seenCall := c, seenShort := a, seenLong := b\<rparr>) =
    (if b then SplitLarge else if a then SplitSmall else if c then NoSplit else Leaf)"
  by (simp add: disposition_def)

lemma recordFunc_fresh:
  "DAList.lookup (funcs s) f = None \<Longrightarrow>
   DAList.lookup (funcs (recordFunc s f)) f = Some (disposition s)"
  by (simp add: recordFunc_def Let_def)

section \<open>The loop over a stream of lines\<close>

lemma scan_lines_append:
  "scan_lines (xs @ ys) = foldl scan_line (scan_lines xs) ys"
  by (simp add: scan_lines_def)

lemma matches_fnstart_iff:
  "matches fnstart l \<longleftrightarrow> (\<exists>name. name \<noteq> '''' \<and> FindStringSubmatch fnstart l = Some [l, name])"
proof (cases "FindStringSubmatch fnstart l")
  case None
  then show ?thesis by (simp add: matches_def)
next
  case (Some m)
  with fnstart_groups [OF Some] show ?thesis by (auto simp: matches_def)
qed

text \<open>A flag that is set was set by a line read before.\<close>

lemma scan_line_flags:
  "seenCall (fst (scan_line (s, cur) l)) \<longrightarrow> seenCall s \<or> is_call_line l"
  "seenShort (fst (scan_line (s, cur) l)) \<longrightarrow> seenShort s \<or> calls l ''__morestack''"
  "seenLong (fst (scan_line (s, cur) l)) \<longrightarrow> seenLong s \<or> calls l ''__morestack_non_split''"
proof -
  show "seenCall (fst (scan_line (s, cur) l)) \<longrightarrow> seenCall s \<or> is_call_line l"
    by (cases "FindStringSubmatch fnstart l")
       (simp_all add: scan_line_body scan_line_fnstart matches_def)
  show "seenShort (fst (scan_line (s, cur) l)) \<longrightarrow> seenShort s \<or> calls l ''__morestack''"
    by (cases "FindStringSubmatch fnstart l")
       (simp_all add: scan_line_body scan_line_fnstart matches_def)
  show "seenLong (fst (scan_line (s, cur) l)) \<longrightarrow> seenLong s \<or> calls l ''__morestack_non_split''"
    by (cases "FindStringSubmatch fnstart l")
       (simp_all add: scan_line_body scan_line_fnstart matches_def)
qed

lemma flags_traced:
  "(seenCall (fst (scan_lines pre)) \<longrightarrow> list_ex is_call_line pre) \<and>
   (seenShort (fst (scan_lines pre)) \<longrightarrow> list_ex (\<lambda>l. calls l ''__morestack'') pre) \<and>
   (seenLong (fst (scan_lines pre)) \<longrightarrow> list_ex (\<lambda>l. calls l ''__morestack_non_split'') pre)"
proof (induction pre rule: rev_induct)
  case Nil
  then show ?case by (simp add: scan_lines_def init_state_def)
next
  case (snoc l pre)
  obtain s cur where sc: "scan_lines pre = (s, cur)" by (cases "scan_lines pre")
  with snoc scan_line_flags [of s cur l] show ?case
    by (auto simp: scan_lines_append)
qed

text \<open>
  The state in which a function is opened: the open function is recorded, which clears
  the flags; with no function open the flags are those of the lines read so far.
\<close>

lemma open_function:
  assumes "FindStringSubmatch fnstart start = Some m"
    and "scan_lines pre = (s, cur)"
  shows "scan_lines (pre @ [start]) = ((if cur \<noteq> '''' then recordFunc s cur else s), m ! 1)"
  using assms by (simp add: scan_lines_append scan_line_fnstart)

lemma function_body:
  assumes start: "FindStringSubmatch fnstart start = Some m"
    and body: "\<forall>l\<in>set body. \<not> matches fnstart l"
  shows "\<exists>s0.
    scan_lines (pre @ [start]) = (s0, m ! 1) \<and>
    scan_lines (pre @ start # body) =
       (s0\<lparr>seenCall := seenCall s0 \<or> list_ex is_call_line body,
           seenShort := seenShort s0 \<or> list_ex (\<lambda>l. calls l ''__morestack'') body,
           seenLong := seenLong s0 \<or> list_ex (\<lambda>l. calls l ''__morestack_non_split'') body\<rparr>,
        m ! 1) \<and>
    (snd (scan_lines pre) \<noteq> '''' \<or> \<not> list_ex is_call_line pre \<longrightarrow> \<not> seenCall s0) \<and>
    (snd (scan_lines pre) \<noteq> '''' \<or> \<not> list_ex (\<lambda>l. calls l ''__morestack'') pre
       \<longrightarrow> \<not> seenShort s0) \<and>
    (snd (scan_lines pre) \<noteq> '''' \<or> \<not> list_ex (\<lambda>l. calls l ''__morestack_non_split'') pre
       \<longrightarrow> \<not> seenLong s0)"
proof -
  obtain s cur where sc: "scan_lines pre = (s, cur)" by (cases "scan_lines pre")
  define s0 where "s0 = (if cur \<noteq> '''' then recordFunc s cur else s)"
  have o: "scan_lines (pre @ [start]) = (s0, m ! 1)"
    unfolding s0_def by (rule open_function [OF start sc])
  have "scan_lines (pre @ start # body) = foldl scan_line (scan_lines (pre @ [start])) body"
    by (simp add: scan_lines_def)
  then have b: "scan_lines (pre @ start # body) =
       (s0\<lparr>seenCall := seenCall s0 \<or> list_ex is_call_line body,
           seenShort := seenShort s0 \<or> list_ex (\<lambda>l. calls l ''__morestack'') body,
           seenLong := seenLong s0 \<or> list_ex (\<lambda>l. calls l ''__morestack_non_split'') body\<rparr>, m ! 1)"
    by (simp add: o scan_body [OF body])
  from flags_traced [of pre] sc have
    "snd (scan_lines pre) \<noteq> '''' \<or> \<not> list_ex is_call_line pre \<longrightarrow> \<not> seenCall s0"
    "snd (scan_lines pre) \<noteq> '''' \<or> \<not> list_ex (\<lambda>l. calls l ''__morestack'') pre \<longrightarrow> \<not> seenShort s0"
    "snd (scan_lines pre) \<noteq> '''' \<or> \<not> list_ex (\<lambda>l. calls l ''__morestack_non_split'') pre \<longrightarrow> \<not> seenLong s0"
    by (auto simp: s0_def)
  with o b show ?thesis by blast
qed

lemma helper_call_is_call_line: "calls l tgt \<Longrightarrow> is_call_line l"
  by (auto simp: calls_def is_call_line_def matches_def split: option.splits)

lemma finalize:
  assumes "scan_lines ls = (s', name)" and "name \<noteq> ''''"
  shows "final_state ls = recordFunc s' name"
    and "matches fnstart l \<Longrightarrow> fst (scan_line (s', name) l) = recordFunc s' name"
  using assms by (auto simp: final_state_def matches_fnstart_iff scan_line_fnstart)

section \<open>Recording a function\<close>

lemma sint_of_nat_small:
  "n < 2 ^ 63 \<Longrightarrow> sint (of_nat n :: 64 word) = int n"
proof -
  assume n: "n < 2 ^ 63"
  have "sint (of_nat n :: 64 word) = signed_take_bit 63 (int n)"
    by (simp add: signed_of_nat)
  also have "\<dots> = int n"
    using n by (intro signed_take_bit_int_eq_self) simp_all
  finally show ?thesis .
qed

lemma fmt_d_nat: "fmt_d (int n) = digits n"
  by (simp add: fmt_d_def)

lemma fnval_inj: "fnval a = fnval b \<longleftrightarrow> a = b"
  by (cases a; cases b) simp_all

lemma lookup_update_fun:
  "DAList.lookup (DAList.update k v al) = (DAList.lookup al)(k \<mapsto> v)"
  by (rule ext) (simp add: DAList.lookup_update)

text \<open>
  What \<open>recordFunc\<close> does with a name that is in the table: the category it stores
  is the larger of the new one and the old one.
\<close>

lemma recordFunc_present:
  assumes "DAList.lookup (funcs s) fname = Some odisp"
  shows "recordFunc s fname =
    s\<lparr>collisions := collisions s + 1,
      funcs := DAList.update (fname @ ''%'' @ fmt_d (sint (collisions s + 1)))
                 (spec_max (disposition s) odisp) (funcs s),
      seenLong := False, seenShort := False, seenCall := False\<rparr>"
  using assms
  by (cases odisp) (simp_all add: recordFunc_def Let_def disposition_def spec_max_def)

lemma recordFunc_renamed:
  assumes "DAList.lookup (funcs s) fname = Some odisp"
  shows "DAList.lookup (funcs (recordFunc s fname))
           (fname @ ''%'' @ fmt_d (sint (collisions s + 1))) =
         Some (spec_max (disposition s) odisp)"
  by (simp add: recordFunc_present [OF assms])

section \<open>The category of a function\<close>

text \<open>
  A function whose first line is read while another function is open, or before any
  call-relevant line has been read, is opened with the three flags clear.  It has the
  lines \<open>body\<close>, up to the end of the input or to the next function's first line; at
  either of the two it is recorded, by \<open>recordFunc\<close>, from a state whose category is
  the specification's.  A name not yet in the table is entered with that category; a
  name in the table is entered under its synthetic key with the larger of that
  category and the old one.
\<close>

lemma category_of_body:
  assumes start: "FindStringSubmatch fnstart start = Some m"
    and body: "\<forall>l\<in>set body. \<not> matches fnstart l"
    and clear: "snd (scan_lines pre) \<noteq> '''' \<or> \<not> list_ex is_call_line pre"
  shows "\<exists>s'. scan_lines (pre @ start # body) = (s', m ! 1) \<and>
           disposition s' = spec_category body \<and>
           final_state (pre @ start # body) = recordFunc s' (m ! 1) \<and>
           (\<forall>l. matches fnstart l \<longrightarrow> fst (scan_line (s', m ! 1) l) = recordFunc s' (m ! 1)) \<and>
           (DAList.lookup (funcs s') (m ! 1) = None \<longrightarrow>
              DAList.lookup (funcs (recordFunc s' (m ! 1))) (m ! 1) = Some (spec_category body)) \<and>
          (\<forall>od. DAList.lookup (funcs s') (m ! 1) = Some od \<longrightarrow>
             DAList.lookup (funcs (recordFunc s' (m ! 1)))
               ((m ! 1) @ ''%'' @ fmt_d (sint (collisions s' + 1))) =
               Some (spec_max (spec_category body) od))"
proof -
  from function_body [OF start body, of pre] obtain s0 where
    b: "scan_lines (pre @ start # body) =
       (s0\<lparr>seenCall := seenCall s0 \<or> list_ex is_call_line body,
           seenShort := seenShort s0 \<or> list_ex (\<lambda>l. calls l ''__morestack'') body,
           seenLong := seenLong s0 \<or> list_ex (\<lambda>l. calls l ''__morestack_non_split'') body\<rparr>, m ! 1)"
      (is "_ = (?s', _)") and
    c: "snd (scan_lines pre) \<noteq> '''' \<or> \<not> list_ex is_call_line pre \<longrightarrow> \<not> seenCall s0"
      "snd (scan_lines pre) \<noteq> '''' \<or> \<not> list_ex (\<lambda>l. calls l ''__morestack'') pre \<longrightarrow> \<not> seenShort s0"
      "snd (scan_lines pre) \<noteq> '''' \<or> \<not> list_ex (\<lambda>l. calls l ''__morestack_non_split'') pre \<longrightarrow> \<not> seenLong s0"
    by blast
  have pre_flags: "\<not> seenCall s0" "\<not> seenShort s0" "\<not> seenLong s0"
    using c clear by (auto simp: list_ex_iff dest: helper_call_is_call_line)
  have name: "m ! 1 \<noteq> ''''" using fnstart_groups [OF start] by auto
  have d: "disposition ?s' = spec_category body"
    using pre_flags by (simp add: disposition_flags spec_category_def)
  from finalize [OF b name] d recordFunc_fresh [of ?s' "m ! 1"] recordFunc_renamed [of ?s' "m ! 1"] b show ?thesis
    by auto
qed

text \<open>
  C1.  The claim: for every function body in the stream of lines, the category
  computed when the function is recorded is \<open>SplitLarge\<close> if a direct call of
  \<open>__morestack_non_split\<close> is among the lines of the body, else \<open>SplitSmall\<close> if a
  direct call of \<open>__morestack\<close> is among them, else \<open>NoSplit\<close> if any call-relevant
  line is, else \<open>Leaf\<close>.

  The code fails it for the first function of a stream that has a call line before
  that function's first line: the flags are cleared in \<open>recordFunc\<close> only, which is
  not called when the first function is opened.  After the line \<open>objdump\<close> prints
  for a file named \<open>x: callq y\<close>, the function \<open>foo\<close>, whose only line is a
  return, is recorded as \<open>NoSplit\<close>, where the claim gives \<open>Leaf\<close>; \<open>bar\<close>
  after it is recorded as the claim says.  After a direct call of \<open>__morestack\<close>, a
  first function without lines is recorded as \<open>SplitSmall\<close>.
\<close>

theorem first_function_counts_earlier_calls:
  "DAList.impl_of (funcs (final_state
     [''x: callq y:     file format elf64-x86-64'',
      '''',
      ''Disassembly of section .text:'',
      '''',
      ''0000000000001000 <foo>:'',
      ''    1000:'' @ [CHR 0x09] @ ''retq'',
      ''0000000000001001 <bar>:'',
      ''    1001:'' @ [CHR 0x09] @ ''callq  2000 <__morestack>''])) =
     [(''foo'', NoSplit), (''bar'', SplitSmall)] \<and>
   spec_category [''    1000:'' @ [CHR 0x09] @ ''retq''] = Leaf \<and>
   DAList.lookup
     (funcs (final_state
        [''  1001:'' @ [CHR 0x09] @ ''callq  2000 <__morestack>'',
         ''0000000000001000 <foo>:'']))
     ''foo'' = Some SplitSmall \<and>
   spec_category [] = Leaf"
  by code_simp

section \<open>Name collisions\<close>



lemma recordFunc_no_collision:
  "DAList.lookup (funcs s) g = None \<Longrightarrow> collisions (recordFunc s g) = collisions s"
  by (simp add: recordFunc_def Let_def)

text \<open>The counter moves on a collision and on nothing else.\<close>

lemma scan_line_collisions:
  "collisions (fst (scan_line (s, cur) l)) =
     (if matches fnstart l \<and> cur \<noteq> '''' \<and> DAList.lookup (funcs s) cur \<noteq> None
      then collisions s + 1 else collisions s)"
proof (cases "FindStringSubmatch fnstart l")
  case None
  then show ?thesis by (simp add: scan_line_body matches_def)
next
  case (Some m)
  then show ?thesis
    by (auto simp: scan_line_fnstart matches_def recordFunc_def Let_def)
qed

text \<open>
  Along the loop the counter is the number of collisions so far: it is zero before the
  first line and moves at a collision only.
\<close>

lemma collisions_from_append:
  "collisions_from sc (xs @ ys) =
     collisions_from sc xs + collisions_from (foldl scan_line sc xs) ys"
  by (induction xs arbitrary: sc) simp_all

lemma count_collisions_snoc:
  "count_collisions (ls @ [l]) =
     count_collisions ls + (if collides (scan_lines ls) l then 1 else 0)"
  by (simp add: count_collisions_def collisions_from_append scan_lines_def)

lemma counter_counts_from:
  "collisions (fst (foldl scan_line sc ls)) =
     collisions (fst sc) + of_nat (collisions_from sc ls)"
proof (induction ls arbitrary: sc)
  case Nil
  then show ?case by simp
next
  case (Cons l ls)
  have "collisions (fst (scan_line sc l)) =
      collisions (fst sc) + (if collides sc l then 1 else 0)"
    using scan_line_collisions [of "fst sc" "snd sc" l] by (simp add: collides_def)
  with Cons.IH [of "scan_line sc l"] show ?case by simp
qed

lemma counter_counts:
  "collisions (fst (scan_lines ls)) = of_nat (count_collisions ls)"
  using counter_counts_from [of "(init_state, '''')" ls]
  by (simp add: scan_lines_def count_collisions_def init_state_def)

lemma collision_step:
  assumes "DAList.lookup (funcs s) fname = Some odisp"
    and "collisions s = of_nat n" and "Suc n < 2 ^ 63"
  shows "collisions (recordFunc s fname) = of_nat (Suc n) \<and>
    DAList.lookup (funcs (recordFunc s fname)) (fname @ ''%'' @ digits (Suc n)) =
      Some (spec_max (disposition s) odisp)"
proof -
  have "collisions s + 1 = of_nat (Suc n)"
    using assms(2) by simp
  then have "sint (collisions s + 1) = int (Suc n)"
    using sint_of_nat_small [OF assms(3)] by (simp only:)
  then have "fmt_d (sint (collisions s + 1)) = digits (Suc n)"
    by (simp only: fmt_d_nat)
  then show ?thesis
    using assms(2) by (simp add: recordFunc_present [OF assms(1)])
qed

text \<open>
  C9.  There is one counter for the whole file, whatever the names that collide.  It is
  zero before the first line, and after any lines \<open>ls\<close> it is the number of
  collisions among them: each line adds one if it is a collision, on whatever name,
  and nothing otherwise.  So when the open function \<open>cur\<close> is in the table, its
  recording, at the end of the input or on the next function's first line, is
  collision number \<open>n + 1\<close>, where \<open>n\<close> collisions came before it on whatever
  names, and its entry goes under \<open>cur\<close>, \<open>%\<close> and the decimal digits of
  \<open>n + 1\<close> (within the range of an \<open>int64\<close>).
\<close>

theorem collision_counter_shared:
  assumes "scan_lines ls = (s, cur)"
  shows "collisions (fst (scan_lines [])) = 0 \<and>
    collisions s = of_nat (count_collisions ls) \<and>
    (\<forall>l. count_collisions (ls @ [l]) =
          count_collisions ls + (if collides (s, cur) l then 1 else 0)) \<and>
    (cur \<noteq> '''' \<and> DAList.lookup (funcs s) cur = Some odisp \<and>
     Suc (count_collisions ls) < 2 ^ 63 \<longrightarrow>
       final_state ls = recordFunc s cur \<and>
       (\<forall>l. matches fnstart l \<longrightarrow>
            collides (s, cur) l \<and> fst (scan_line (s, cur) l) = recordFunc s cur) \<and>
       collisions (recordFunc s cur) = of_nat (Suc (count_collisions ls)) \<and>
       DAList.lookup (funcs (recordFunc s cur))
         (cur @ ''%'' @ digits (Suc (count_collisions ls))) =
         Some (spec_max (disposition s) odisp))"
proof -
  have z: "collisions (fst (scan_lines [])) = 0"
    by (simp add: scan_lines_def init_state_def)
  have c: "collisions s = of_nat (count_collisions ls)"
    using counter_counts [of ls] assms by simp
  have n: "\<forall>l. count_collisions (ls @ [l]) =
          count_collisions ls + (if collides (s, cur) l then 1 else 0)"
    using count_collisions_snoc [of ls] assms by simp
  have r: "final_state ls = recordFunc s cur \<and>
       (\<forall>l. matches fnstart l \<longrightarrow>
            collides (s, cur) l \<and> fst (scan_line (s, cur) l) = recordFunc s cur) \<and>
       collisions (recordFunc s cur) = of_nat (Suc (count_collisions ls)) \<and>
       DAList.lookup (funcs (recordFunc s cur))
         (cur @ ''%'' @ digits (Suc (count_collisions ls))) =
         Some (spec_max (disposition s) odisp)"
    if h: "cur \<noteq> ''''" "DAList.lookup (funcs s) cur = Some odisp"
      "Suc (count_collisions ls) < 2 ^ 63"
  proof -
    from finalize [OF assms h(1)] have
      f: "final_state ls = recordFunc s cur"
        "\<And>l. matches fnstart l \<Longrightarrow> fst (scan_line (s, cur) l) = recordFunc s cur"
      by blast+
    have k: "\<And>l. matches fnstart l \<Longrightarrow> collides (s, cur) l"
      using h(1,2) by (simp add: collides_def)
    from collision_step [OF h(2) c h(3)] f k show ?thesis by blast
  qed
  from z c n r show ?thesis by blast
qed

text \<open>
  Four functions named \<open>a\<close>, \<open>b\<close>, \<open>a\<close>, \<open>b\<close>: after the four lines the table
  holds \<open>a\<close>, \<open>b\<close> and \<open>a%1\<close>, one collision has been counted and the counter is
  one; recording the second \<open>b\<close> is the second collision and enters \<open>b%2\<close>.
\<close>

theorem collision_counter_shared_witness:
  "scan_lines
      [''0000000000001000 <a>:'', ''0000000000002000 <b>:'',
       ''0000000000003000 <a>:'', ''0000000000004000 <b>:''] =
     (\<lparr>seenShort = False, seenLong = False, seenCall = False,
       funcs = DAList.update ''a%1'' Leaf
                 (DAList.update ''b'' Leaf (DAList.update ''a'' Leaf DAList.empty)),
       collisions = 1\<rparr>, ''b'') \<and>
   count_collisions
      [''0000000000001000 <a>:'', ''0000000000002000 <b>:'',
       ''0000000000003000 <a>:'', ''0000000000004000 <b>:''] = 1 \<and>
   collisions (final_state
      [''0000000000001000 <a>:'', ''0000000000002000 <b>:'',
       ''0000000000003000 <a>:'', ''0000000000004000 <b>:'']) = 2 \<and>
   DAList.lookup (funcs (final_state
      [''0000000000001000 <a>:'', ''0000000000002000 <b>:'',
       ''0000000000003000 <a>:'', ''0000000000004000 <b>:''])) ''b%2'' = Some Leaf \<and>
   DAList.lookup (funcs (final_state
      [''0000000000001000 <a>:'', ''0000000000002000 <b>:'',
       ''0000000000003000 <a>:'', ''0000000000004000 <b>:''])) ''a%1'' = Some Leaf"
proof -
  let ?ls = "[''0000000000001000 <a>:'', ''0000000000002000 <b>:'',
       ''0000000000003000 <a>:'', ''0000000000004000 <b>:'']"
  let ?s = "\<lparr>seenShort = False, seenLong = False, seenCall = False,
       funcs = DAList.update ''a%1'' Leaf
                 (DAList.update ''b'' Leaf (DAList.update ''a'' Leaf DAList.empty)),
       collisions = 1 :: 64 word\<rparr>"
  have sc: "scan_lines ?ls = (?s, ''b'')"
    by code_simp
  have n: "count_collisions ?ls = 1"
    by code_simp
  have h: "''b'' \<noteq> '''' \<and> DAList.lookup (funcs ?s) ''b'' = Some Leaf \<and>
      Suc (count_collisions ?ls) < 2 ^ 63"
    unfolding n by simp
  have k: "''b'' @ ''%'' @ digits (Suc 1) = ''b%2''"
    by code_simp
  have d: "spec_max (disposition ?s) Leaf = Leaf"
    by (simp add: disposition_def spec_max_def)
  from collision_counter_shared [OF sc, of Leaf] h have
    "final_state ?ls = recordFunc ?s ''b'' \<and>
     collisions (recordFunc ?s ''b'') = of_nat (Suc (count_collisions ?ls)) \<and>
     DAList.lookup (funcs (recordFunc ?s ''b''))
       (''b'' @ ''%'' @ digits (Suc (count_collisions ?ls))) =
       Some (spec_max (disposition ?s) Leaf)"
    by blast
  then have r: "collisions (final_state ?ls) = 2 \<and>
     DAList.lookup (funcs (final_state ?ls)) ''b%2'' = Some Leaf"
    unfolding n k d by simp
  have a: "DAList.lookup (funcs (final_state ?ls)) ''a%1'' = Some Leaf"
    by code_simp
  from sc n r a show ?thesis by blast
qed

section \<open>The table and the aggregation\<close>

lemma disposition_known: "disposition s \<noteq> Unknown" "Unknown \<noteq> disposition s"
  by (simp_all add: disposition_def)

lemma ran_lookup: "ran (DAList.lookup al) = snd ` set (DAList.impl_of al)"
  by (simp add: DAList.lookup.rep_eq ran_distinct)

lemma ran_upd_known:
  "v \<noteq> Unknown \<Longrightarrow> Unknown \<notin> ran m \<Longrightarrow> Unknown \<notin> ran (m(k \<mapsto> v))"
  by (auto simp: ran_def)

lemma recordFunc_known:
  assumes "Unknown \<notin> ran (DAList.lookup (funcs s))"
  shows "Unknown \<notin> ran (DAList.lookup (funcs (recordFunc s f)))"
proof (cases "DAList.lookup (funcs s) f")
  case None
  with assms show ?thesis
    by (simp add: recordFunc_def lookup_update_fun disposition_known ran_upd_known)
next
  case (Some odisp)
  then have o: "odisp \<noteq> Unknown" using assms by (auto simp: ran_def)
  with Some assms show ?thesis
    by (simp add: recordFunc_def Let_def lookup_update_fun disposition_known ran_upd_known)
qed

lemma scan_line_funcs:
  "funcs (fst (scan_line (s, cur) l)) = funcs s \<or>
   fst (scan_line (s, cur) l) = recordFunc s cur"
  by (cases "FindStringSubmatch fnstart l")
     (simp_all add: scan_line_body scan_line_fnstart matches_def)

lemma scan_line_known:
  assumes "Unknown \<notin> ran (DAList.lookup (funcs s))"
  shows "Unknown \<notin> ran (DAList.lookup (funcs (fst (scan_line (s, cur) l))))"
  using scan_line_funcs [of s cur l] recordFunc_known [OF assms, of cur] assms
  by auto

lemma scan_lines_known:
  "Unknown \<notin> ran (DAList.lookup (funcs (fst (scan_lines ls))))"
proof (induction ls rule: rev_induct)
  case Nil
  then show ?case by (simp add: scan_lines_def init_state_def ran_lookup DAList.empty.rep_eq)
next
  case (snoc l ls)
  obtain s cur where sc: "scan_lines ls = (s, cur)" by (cases "scan_lines ls")
  with snoc scan_line_known [of s cur l] show ?case
    by (simp add: scan_lines_append)
qed

lemma final_state_known:
  "Unknown \<notin> ran (DAList.lookup (funcs (final_state ls)))"
proof -
  obtain s cur where sc: "scan_lines ls = (s, cur)" by (cases "scan_lines ls")
  with scan_lines_known [of ls] recordFunc_known [of s cur] show ?thesis
    by (simp add: final_state_def)
qed

text \<open>The loop of \<open>analyze\<close> on a table without \<open>Unknown\<close>.\<close>

lemma analyze_loop_tallies:
  assumes "Unknown \<notin> snd ` set es"
  shows "analyze_loop es (lv, ns, short, long) =
    Inr (lv + of_nat (length (filter (\<lambda>e. snd e = Leaf) es)),
         ns + of_nat (length (filter (\<lambda>e. snd e = NoSplit) es)),
         short + of_nat (length (filter (\<lambda>e. snd e = SplitSmall) es)),
         long + of_nat (length (filter (\<lambda>e. snd e = SplitLarge) es)))"
  using assms
proof (induction es arbitrary: lv ns short long)
  case Nil
  then show ?case by simp
next
  case (Cons e es)
  obtain fn disp where e: "e = (fn, disp)" by (cases e)
  with Cons show ?case by (cases disp) (simp_all add: algebra_simps)
qed

lemma tallies_cover:
  assumes "Unknown \<notin> snd ` set es"
  shows "length (filter (\<lambda>e. snd e = Leaf) es) + length (filter (\<lambda>e. snd e = NoSplit) es) +
         length (filter (\<lambda>e. snd e = SplitSmall) es) +
         length (filter (\<lambda>e. snd e = SplitLarge) es) = length es"
  using assms
proof (induction es)
  case Nil
  then show ?case by simp
next
  case (Cons e es)
  then show ?case by (cases "snd e") auto
qed

lemma card_keys_with:
  assumes "distinct (map fst es)"
  shows "card {k. map_of es k = Some c} = length (filter (\<lambda>e. snd e = c) es)"
proof -
  let ?f = "filter (\<lambda>e. snd e = c) es"
  have d: "distinct (map fst ?f)"
    using assms by (rule distinct_map_filter)
  have "{k. map_of es k = Some c} = set (map fst ?f)"
    using assms by (auto simp: image_iff)
  then have "card {k. map_of es k = Some c} = card (set (map fst ?f))"
    by simp
  also have "\<dots> = length (map fst ?f)"
    using d by (rule distinct_card)
  finally show ?thesis by simp
qed

lemma card_keys:
  assumes "distinct (map fst es)"
  shows "card (dom (map_of es)) = length es"
  using distinct_card [OF assms] by (simp add: dom_map_of_conv_image_fst)

text \<open>
  C4.  Whatever the lines, no entry of the table is \<open>Unknown\<close>, neither while the
  lines are read nor after the last function is recorded: \<open>recordFunc\<close> stores the
  category it computes, which is one of the four others, or a category the table
  already holds.  So \<open>analyze\<close> returns its counts and never reaches the fatal
  \<open>corrupted funcs table entry\<close>.
\<close>

theorem table_never_holds_unknown:
  "Unknown \<notin> ran (DAList.lookup (funcs (fst (scan_lines ls)))) \<and>
   Unknown \<notin> ran (DAList.lookup (funcs (final_state ls))) \<and>
   (\<exists>t. examineFile ls = Inr t)"
proof -
  have "Unknown \<notin> snd ` set (DAList.impl_of (funcs (final_state ls)))"
    using final_state_known [of ls] by (simp add: ran_lookup)
  then have "\<exists>t. examineFile ls = Inr t"
    by (simp add: examineFile_def analyze_def analyze_loop_tallies)
  with scan_lines_known final_state_known show ?thesis by blast
qed

text \<open>Two functions named \<open>dup\<close> with no call: two leaves are counted.\<close>

theorem table_never_holds_unknown_witness:
  "(Unknown \<notin> ran (DAList.lookup (funcs (fst (scan_lines
       [''0000000000001000 <dup>:'', ''0000000000002000 <dup>:''])))) \<and>
    Unknown \<notin> ran (DAList.lookup (funcs (final_state
       [''0000000000001000 <dup>:'', ''0000000000002000 <dup>:'']))) \<and>
    (\<exists>t. examineFile [''0000000000001000 <dup>:'', ''0000000000002000 <dup>:''] = Inr t)) \<and>
   examineFile [''0000000000001000 <dup>:'', ''0000000000002000 <dup>:''] = Inr (2, 0, 0, 0)"
proof -
  have a: "examineFile [''0000000000001000 <dup>:'', ''0000000000002000 <dup>:''] =
      Inr (2, 0, 0, 0)"
    by code_simp
  show ?thesis
    by (rule conjI [OF table_never_holds_unknown a])
qed

text \<open>
  C7.  On a table without \<open>Unknown\<close>, \<open>analyze\<close> returns four tallies: each is the
  number of keys of one category (as an \<open>int64\<close>), the four sets of keys are counted
  apart and together make up the keys of the table, and the sum of the four tallies
  is the number of keys, synthetic keys included; as integers when the table has
  fewer than \<open>2^63\<close> entries, as any Go map has.
\<close>

theorem tallies_count_every_entry_once:
  assumes "Unknown \<notin> ran (DAList.lookup (funcs s))"
  shows "\<exists>lv ns short long.
     analyze s = Inr (lv, ns, short, long) \<and>
     lv = of_nat (card {k. DAList.lookup (funcs s) k = Some Leaf}) \<and>
     ns = of_nat (card {k. DAList.lookup (funcs s) k = Some NoSplit}) \<and>
     short = of_nat (card {k. DAList.lookup (funcs s) k = Some SplitSmall}) \<and>
     long = of_nat (card {k. DAList.lookup (funcs s) k = Some SplitLarge}) \<and>
     card {k. DAList.lookup (funcs s) k = Some Leaf} +
     card {k. DAList.lookup (funcs s) k = Some NoSplit} +
     card {k. DAList.lookup (funcs s) k = Some SplitSmall} +
     card {k. DAList.lookup (funcs s) k = Some SplitLarge} =
       card (dom (DAList.lookup (funcs s))) \<and>
     lv + ns + short + long = of_nat (card (dom (DAList.lookup (funcs s)))) \<and>
     (card (dom (DAList.lookup (funcs s))) < 2 ^ 63 \<longrightarrow>
        sint lv + sint ns + sint short + sint long =
          int (card (dom (DAList.lookup (funcs s)))))"
proof -
  let ?es = "DAList.impl_of (funcs s)"
  let ?n = "\<lambda>c. length (filter (\<lambda>e. snd e = c) ?es)"
  have d: "distinct (map fst ?es)" by simp
  have u: "Unknown \<notin> snd ` set ?es"
    using assms by (simp add: ran_lookup)
  have a: "analyze s = Inr (of_nat (?n Leaf), of_nat (?n NoSplit),
                             of_nat (?n SplitSmall), of_nat (?n SplitLarge))"
    by (simp add: analyze_def analyze_loop_tallies [OF u])
  have c: "card {k. DAList.lookup (funcs s) k = Some c} = ?n c" for c
    using card_keys_with [OF d] by (simp add: DAList.lookup.rep_eq)
  have k: "card (dom (DAList.lookup (funcs s))) = length ?es"
    using card_keys [OF d] by (simp add: DAList.lookup.rep_eq)
  have t: "?n Leaf + ?n NoSplit + ?n SplitSmall + ?n SplitLarge = length ?es"
    by (rule tallies_cover [OF u])
  have w: "(of_nat (?n Leaf) + of_nat (?n NoSplit) + of_nat (?n SplitSmall) +
            of_nat (?n SplitLarge) :: 64 word) = of_nat (length ?es)"
  proof -
    have "(of_nat (?n Leaf + ?n NoSplit + ?n SplitSmall + ?n SplitLarge) :: 64 word) =
      of_nat (length ?es)"
      by (simp only: t)
    then show ?thesis by (simp only: of_nat_add)
  qed
  have i: "sint (of_nat (?n Leaf) :: 64 word) + sint (of_nat (?n NoSplit) :: 64 word) +
           sint (of_nat (?n SplitSmall) :: 64 word) + sint (of_nat (?n SplitLarge) :: 64 word) =
           int (length ?es)" if "length ?es < 2 ^ 63"
  proof -
    have "?n c < 2 ^ 63" for c
      using that length_filter_le [of "\<lambda>e. snd e = c" ?es] by (rule le_less_trans [rotated])
    then have "sint (of_nat (?n c) :: 64 word) = int (?n c)" for c
      by (rule sint_of_nat_small)
    then have "sint (of_nat (?n Leaf) :: 64 word) + sint (of_nat (?n NoSplit) :: 64 word) +
           sint (of_nat (?n SplitSmall) :: 64 word) + sint (of_nat (?n SplitLarge) :: 64 word) =
           int (?n Leaf + ?n NoSplit + ?n SplitSmall + ?n SplitLarge)"
      by (simp only: of_nat_add)
    then show ?thesis by (simp only: t)
  qed
  show ?thesis
  proof (intro exI conjI)
    show "analyze s = Inr (of_nat (?n Leaf), of_nat (?n NoSplit),
                             of_nat (?n SplitSmall), of_nat (?n SplitLarge))"
      by (rule a)
    show "(of_nat (?n Leaf) :: 64 word) = of_nat (card {k. DAList.lookup (funcs s) k = Some Leaf})"
      by (simp only: c)
    show "(of_nat (?n NoSplit) :: 64 word) =
        of_nat (card {k. DAList.lookup (funcs s) k = Some NoSplit})"
      by (simp only: c)
    show "(of_nat (?n SplitSmall) :: 64 word) =
        of_nat (card {k. DAList.lookup (funcs s) k = Some SplitSmall})"
      by (simp only: c)
    show "(of_nat (?n SplitLarge) :: 64 word) =
        of_nat (card {k. DAList.lookup (funcs s) k = Some SplitLarge})"
      by (simp only: c)
    show "card {k. DAList.lookup (funcs s) k = Some Leaf} +
      card {k. DAList.lookup (funcs s) k = Some NoSplit} +
      card {k. DAList.lookup (funcs s) k = Some SplitSmall} +
      card {k. DAList.lookup (funcs s) k = Some SplitLarge} =
      card (dom (DAList.lookup (funcs s)))"
      by (simp only: c k t)
    show "(of_nat (?n Leaf) + of_nat (?n NoSplit) + of_nat (?n SplitSmall) +
            of_nat (?n SplitLarge) :: 64 word) = of_nat (card (dom (DAList.lookup (funcs s))))"
      by (simp only: k w)
    show "card (dom (DAList.lookup (funcs s))) < 2 ^ 63 \<longrightarrow>
      sint (of_nat (?n Leaf) :: 64 word) + sint (of_nat (?n NoSplit) :: 64 word) +
      sint (of_nat (?n SplitSmall) :: 64 word) + sint (of_nat (?n SplitLarge) :: 64 word) =
      int (card (dom (DAList.lookup (funcs s))))"
      using i by (simp only: k) blast
  qed
qed

text \<open>
  A function with an indirect call and two functions named \<open>bar\<close>: the table has
  the keys \<open>foo\<close>, \<open>bar\<close> and \<open>bar%1\<close>, and the tallies are 2, 1, 0 and 0.
\<close>

theorem tallies_count_every_entry_once_witness:
  "(\<exists>lv ns short long.
      analyze (final_state
        [''0000000000001000 <foo>:'',
         ''  1001:'' @ [CHR 0x09] @ ''callq  *%rax'',
         ''0000000000002000 <bar>:'',
         ''0000000000003000 <bar>:'']) = Inr (lv, ns, short, long) \<and>
      lv + ns + short + long = 3) \<and>
   analyze (final_state
     [''0000000000001000 <foo>:'',
      ''  1001:'' @ [CHR 0x09] @ ''callq  *%rax'',
      ''0000000000002000 <bar>:'',
      ''0000000000003000 <bar>:'']) = Inr (2, 1, 0, 0) \<and>
   DAList.impl_of (funcs (final_state
     [''0000000000001000 <foo>:'',
      ''  1001:'' @ [CHR 0x09] @ ''callq  *%rax'',
      ''0000000000002000 <bar>:'',
      ''0000000000003000 <bar>:''])) =
     [(''foo'', NoSplit), (''bar'', Leaf), (''bar%1'', Leaf)]"
proof -
  let ?s = "final_state
     [''0000000000001000 <foo>:'',
      ''  1001:'' @ [CHR 0x09] @ ''callq  *%rax'',
      ''0000000000002000 <bar>:'',
      ''0000000000003000 <bar>:'']"
  have e: "DAList.impl_of (funcs ?s) = [(''foo'', NoSplit), (''bar'', Leaf), (''bar%1'', Leaf)]"
    by code_simp
  have h: "Unknown \<notin> ran (DAList.lookup (funcs ?s))"
    unfolding ran_lookup e by simp
  have a: "analyze ?s = Inr (2, 1, 0, 0)"
    by code_simp
  have "card (dom (map_of (DAList.impl_of (funcs ?s)))) = length (DAList.impl_of (funcs ?s))"
    by (rule card_keys) simp
  then have cd: "card (dom (DAList.lookup (funcs ?s))) = 3"
    unfolding DAList.lookup.rep_eq e by simp
  from tallies_count_every_entry_once [OF h] have
    "\<exists>lv ns short long. analyze ?s = Inr (lv, ns, short, long) \<and>
       lv + ns + short + long = of_nat (card (dom (DAList.lookup (funcs ?s))))"
    by blast
  then have A: "\<exists>lv ns short long. analyze ?s = Inr (lv, ns, short, long) \<and>
       lv + ns + short + long = 3"
    unfolding cd by simp
  show ?thesis
    by (rule conjI [OF A conjI [OF a e]])
qed

section \<open>PLT jumps\<close>

lemma calls_matches: "calls l tgt \<Longrightarrow> matches dircallre l"
  by (auto simp: calls_def matches_def split: option.splits)

lemma pltjump_line:
  assumes "matches pltjumpre l"
  shows "scan_line (s, cur) l = (s\<lparr>seenCall := True\<rparr>, cur)"
proof -
  from pltjump_no_call [OF assms] have n: "\<not> matches fnstart l" "\<not> calls l tgt" for tgt
    by (auto dest: calls_matches)
  have c: "is_call_line l" using assms by (simp add: is_call_line_def)
  show ?thesis by (simp add: scan_line_body [OF n(1)] n(2) c)
qed

text \<open>
  A PLT-jump line matches no other pattern, and the state after it is the state before
  it with \<open>seenCall\<close> set.  A function opened with the short and the long flag clear
  (its first line is read while another function is open, or before any direct call of
  \<open>__morestack\<close> or \<open>__morestack_non_split\<close>), whose body has a PLT-jump line and
  no call-relevant line of another kind, is recorded from the category \<open>NoSplit\<close>.
\<close>

lemma pltjump_only_body:
  assumes start: "FindStringSubmatch fnstart start = Some m"
    and body: "\<forall>l\<in>set body. \<not> matches fnstart l"
    and only: "\<forall>l\<in>set body. is_call_line l \<longrightarrow> matches pltjumpre l"
    and some: "list_ex (matches pltjumpre) body"
    and clear: "snd (scan_lines pre) \<noteq> '''' \<or>
      (\<not> list_ex (\<lambda>l. calls l ''__morestack'') pre \<and>
       \<not> list_ex (\<lambda>l. calls l ''__morestack_non_split'') pre)"
  shows "(\<forall>s cur l. matches pltjumpre l \<longrightarrow> scan_line (s, cur) l = (s\<lparr>seenCall := True\<rparr>, cur)) \<and>
    (\<exists>s'. scan_lines (pre @ start # body) = (s', m ! 1) \<and>
          disposition s' = NoSplit \<and>
          final_state (pre @ start # body) = recordFunc s' (m ! 1) \<and>
          (DAList.lookup (funcs s') (m ! 1) = None \<longrightarrow>
             DAList.lookup (funcs (recordFunc s' (m ! 1))) (m ! 1) = Some NoSplit) \<and>
          (\<forall>od. DAList.lookup (funcs s') (m ! 1) = Some od \<longrightarrow>
             DAList.lookup (funcs (recordFunc s' (m ! 1)))
               ((m ! 1) @ ''%'' @ fmt_d (sint (collisions s' + 1))) =
               Some (spec_max NoSplit od)))"
proof -
  from function_body [OF start body, of pre] obtain s0 where
    b: "scan_lines (pre @ start # body) =
       (s0\<lparr>seenCall := seenCall s0 \<or> list_ex is_call_line body,
           seenShort := seenShort s0 \<or> list_ex (\<lambda>l. calls l ''__morestack'') body,
           seenLong := seenLong s0 \<or> list_ex (\<lambda>l. calls l ''__morestack_non_split'') body\<rparr>, m ! 1)"
      (is "_ = (?s', _)") and
    c: "snd (scan_lines pre) \<noteq> '''' \<or> \<not> list_ex (\<lambda>l. calls l ''__morestack'') pre \<longrightarrow> \<not> seenShort s0"
      "snd (scan_lines pre) \<noteq> '''' \<or> \<not> list_ex (\<lambda>l. calls l ''__morestack_non_split'') pre \<longrightarrow> \<not> seenLong s0"
    by blast
  have pre_flags: "\<not> seenShort s0" "\<not> seenLong s0"
    using c clear by auto
  have no_helper: "\<not> list_ex (\<lambda>l. calls l tgt) body" for tgt
  proof
    assume "list_ex (\<lambda>l. calls l tgt) body"
    then obtain l where l: "l \<in> set body" "calls l tgt" by (auto simp: list_ex_iff)
    then have "matches pltjumpre l" using only helper_call_is_call_line by blast
    from pltjump_no_call(2) [OF this] l(2) show False by (auto dest: calls_matches)
  qed
  have a_call: "list_ex is_call_line body"
    using some by (auto simp: list_ex_iff is_call_line_def)
  have name: "m ! 1 \<noteq> ''''" using fnstart_groups [OF start] by auto
  have d: "disposition ?s' = NoSplit"
    using pre_flags no_helper a_call by (simp add: disposition_flags)
  from finalize(1) [OF b name] d recordFunc_fresh [of ?s' "m ! 1"] recordFunc_renamed [of ?s' "m ! 1"] b pltjump_line
  show ?thesis by auto
qed

text \<open>
  C5.  The claim: a PLT-jump line sets the any-call flag only, never the short or the
  long flag; so every function body whose only call-relevant lines are PLT-jump lines
  is recorded as \<open>NoSplit\<close>.

  The first part holds.  The code fails the second part for the first function of a
  stream that has a direct call of \<open>__morestack\<close> or \<open>__morestack_non_split\<close>
  before that function's first line, since the flags are not cleared when the first
  function is opened: the only line of the body of \<open>foo\<close> is a PLT jump, the claim
  gives \<open>NoSplit\<close>, and \<open>foo\<close> is recorded as \<open>SplitSmall\<close>.
\<close>

theorem pltjump_body_after_helper_call:
  "DAList.lookup
     (funcs (final_state
        [''  1001:'' @ [CHR 0x09] @ ''callq  2000 <__morestack>'',
         ''0000000000003000 <foo>:'',
         ''  3001:'' @ [CHR 0x09] @ ''jmpq   4000 <puts@plt>'']))
     ''foo'' = Some SplitSmall \<and>
   matches pltjumpre (''  3001:'' @ [CHR 0x09] @ ''jmpq   4000 <puts@plt>'') \<and>
   spec_category [''  3001:'' @ [CHR 0x09] @ ''jmpq   4000 <puts@plt>''] = NoSplit"
  by code_simp

section \<open>The order of the lines of a body\<close>

text \<open>
  The flags are only ever set, so the order of the lines of a body does not matter:
  for every rearrangement \<open>body'\<close> of the lines \<open>body\<close> the loop ends in the same
  state and with the same table.  With a direct call of \<open>__morestack\<close> and none of
  \<open>__morestack_non_split\<close> in the body, a function opened with the long flag clear
  is recorded from the category \<open>SplitSmall\<close>.
\<close>

lemma order_within_body:
  assumes start: "FindStringSubmatch fnstart start = Some m"
    and body: "\<forall>l\<in>set body. \<not> matches fnstart l"
    and perm: "mset body' = mset body"
    and short: "list_ex (\<lambda>l. calls l ''__morestack'') body"
    and nolong: "\<not> list_ex (\<lambda>l. calls l ''__morestack_non_split'') body"
    and clear: "snd (scan_lines pre) \<noteq> '''' \<or>
      \<not> list_ex (\<lambda>l. calls l ''__morestack_non_split'') pre"
  shows "scan_lines (pre @ start # body') = scan_lines (pre @ start # body) \<and>
    final_state (pre @ start # body') = final_state (pre @ start # body) \<and>
    (\<exists>s'. scan_lines (pre @ start # body) = (s', m ! 1) \<and>
          disposition s' = SplitSmall \<and>
          final_state (pre @ start # body) = recordFunc s' (m ! 1) \<and>
          (DAList.lookup (funcs s') (m ! 1) = None \<longrightarrow>
             DAList.lookup (funcs (recordFunc s' (m ! 1))) (m ! 1) = Some SplitSmall) \<and>
          (\<forall>od. DAList.lookup (funcs s') (m ! 1) = Some od \<longrightarrow>
             DAList.lookup (funcs (recordFunc s' (m ! 1)))
               ((m ! 1) @ ''%'' @ fmt_d (sint (collisions s' + 1))) =
               Some (spec_max SplitSmall od)))"
proof -
  have sets: "set body' = set body" using perm by (rule mset_eq_setD)
  then have body': "\<forall>l\<in>set body'. \<not> matches fnstart l" using body by simp
  have ex: "list_ex P body' = list_ex P body" for P :: "string \<Rightarrow> bool"
    using sets by (simp add: list_ex_iff)
  from function_body [OF start body, of pre] obtain s0 where
    o: "scan_lines (pre @ [start]) = (s0, m ! 1)" and
    b: "scan_lines (pre @ start # body) =
       (s0\<lparr>seenCall := seenCall s0 \<or> list_ex is_call_line body,
           seenShort := seenShort s0 \<or> list_ex (\<lambda>l. calls l ''__morestack'') body,
           seenLong := seenLong s0 \<or> list_ex (\<lambda>l. calls l ''__morestack_non_split'') body\<rparr>, m ! 1)"
      (is "_ = (?s', _)") and
    c: "snd (scan_lines pre) \<noteq> '''' \<or> \<not> list_ex (\<lambda>l. calls l ''__morestack_non_split'') pre \<longrightarrow> \<not> seenLong s0"
    by blast
  from function_body [OF start body', of pre] o have
    b': "scan_lines (pre @ start # body') = (?s', m ! 1)"
    by (auto simp: ex)
  have same: "scan_lines (pre @ start # body') = scan_lines (pre @ start # body)"
    using b b' by simp
  then have fin: "final_state (pre @ start # body') = final_state (pre @ start # body)"
    by (simp add: final_state_def)
  have name: "m ! 1 \<noteq> ''''" using fnstart_groups [OF start] by auto
  have d: "disposition ?s' = SplitSmall"
    using c clear short nolong by (simp add: disposition_flags)
  from finalize(1) [OF b name] d recordFunc_fresh [of ?s' "m ! 1"] recordFunc_renamed [of ?s' "m ! 1"] b same fin
  show ?thesis by auto
qed

text \<open>
  C8.  The claim: for every function body with a direct call of \<open>__morestack\<close>, any
  number of other call lines and no direct call of \<open>__morestack_non_split\<close>, the
  order of the lines does not change the category, which is \<open>SplitSmall\<close>.

  The order does not change the category.  The code fails the claim for the first
  function of a stream that has a direct call of \<open>__morestack_non_split\<close> before
  that function's first line, since the flags are not cleared when the first function
  is opened: the body of \<open>foo\<close> is a direct call of \<open>__morestack\<close> and an indirect
  call, the claim gives \<open>SplitSmall\<close>, and \<open>foo\<close> is recorded as \<open>SplitLarge\<close>
  in either order of the two lines.
\<close>

theorem body_order_after_long_call:
  "DAList.lookup
     (funcs (final_state
        [''  1001:'' @ [CHR 0x09] @ ''callq  2000 <__morestack_non_split>'',
         ''0000000000003000 <foo>:'',
         ''  3001:'' @ [CHR 0x09] @ ''callq  2000 <__morestack>'',
         ''  3006:'' @ [CHR 0x09] @ ''callq  *%rax'']))
     ''foo'' = Some SplitLarge \<and>
   DAList.lookup
     (funcs (final_state
        [''  1001:'' @ [CHR 0x09] @ ''callq  2000 <__morestack_non_split>'',
         ''0000000000003000 <foo>:'',
         ''  3006:'' @ [CHR 0x09] @ ''callq  *%rax'',
         ''  3001:'' @ [CHR 0x09] @ ''callq  2000 <__morestack>'']))
     ''foo'' = Some SplitLarge \<and>
   calls (''  3001:'' @ [CHR 0x09] @ ''callq  2000 <__morestack>'') ''__morestack'' \<and>
   matches anycallre (''  3006:'' @ [CHR 0x09] @ ''callq  *%rax'') \<and>
   \<not> matches dircallre (''  3006:'' @ [CHR 0x09] @ ''callq  *%rax'') \<and>
   spec_category
     [''  3001:'' @ [CHR 0x09] @ ''callq  2000 <__morestack>'',
      ''  3006:'' @ [CHR 0x09] @ ''callq  *%rax''] = SplitSmall"
  by code_simp

section \<open>The first line of a function\<close>

text \<open>
  What the loop does on a function's first line: with a function open it records that
  function, which clears the three flags, and opens the new one; with no function
  open it only opens the new one, and the flags stay as they are.
\<close>

lemma function_start_line:
  assumes "FindStringSubmatch fnstart l = Some m"
  shows "cur \<noteq> '''' \<Longrightarrow>
           scan_line (s, cur) l = (recordFunc s cur, m ! 1) \<and>
           \<not> seenShort (fst (scan_line (s, cur) l)) \<and>
           \<not> seenLong (fst (scan_line (s, cur) l)) \<and>
           \<not> seenCall (fst (scan_line (s, cur) l))"
    and "cur = '''' \<Longrightarrow> scan_line (s, cur) l = (s, m ! 1)"
  using scan_line_fnstart [OF assms] by simp_all

text \<open>
  C3.  The claim: a function's first line records the open function, if any, then sets
  the current name and clears the three flags, so that call lines before the first
  function never count for it.  The code clears the flags in \<open>recordFunc\<close> only, and
  calls it only when a function is open; before the first function the flags are kept.

  \<open>objdump\<close> prints the name of the file before the disassembly; for a file named
  \<open>x: callq y\<close> that line matches \<open>anycallre\<close> and sets \<open>seenCall\<close>, and the first
  function, \<open>foo\<close>, which has no line at all, is recorded as \<open>NoSplit\<close>.  After a
  direct call of \<open>__morestack\<close>, a first function without lines is recorded as
  \<open>SplitSmall\<close>.
\<close>

theorem first_function_inherits_flags:
  "matches anycallre ''x: callq y:     file format elf64-x86-64'' \<and>
   scan_lines
     [''x: callq y:     file format elf64-x86-64'',
      '''',
      ''Disassembly of section .text:'',
      '''',
      ''0000000000001000 <foo>:''] =
     (init_state\<lparr>seenCall := True\<rparr>, ''foo'') \<and>
   DAList.impl_of (funcs (final_state
     [''x: callq y:     file format elf64-x86-64'',
      '''',
      ''Disassembly of section .text:'',
      '''',
      ''0000000000001000 <foo>:''])) = [(''foo'', NoSplit)] \<and>
   DAList.impl_of (funcs (final_state
     [''  1001:'' @ [CHR 0x09] @ ''callq  2000 <__morestack>'',
      ''0000000000001000 <foo>:'',
      ''0000000000002000 <bar>:''])) = [(''foo'', SplitSmall), (''bar'', Leaf)]"
  by code_simp

section \<open>Scenarios\<close>

text \<open>
  C6.  The three lines of scenario A: the table is \<open>foo\<close> as \<open>SplitSmall\<close> and
  \<open>bar\<close> as \<open>Leaf\<close>, and the counts are one leaf, no nonsplit, one morestack and no
  morestack_non_split function.
\<close>

theorem scenario_a:
  "DAList.impl_of (funcs (final_state
     [''0000000000001000 <foo>:'',
      ''  1001:'' @ [CHR 0x09] @ ''callq  2000 <__morestack>'',
      ''0000000000002000 <bar>:''])) = [(''foo'', SplitSmall), (''bar'', Leaf)] \<and>
   DAList.lookup (funcs (final_state
     [''0000000000001000 <foo>:'',
      ''  1001:'' @ [CHR 0x09] @ ''callq  2000 <__morestack>'',
      ''0000000000002000 <bar>:''])) = [''foo'' \<mapsto> SplitSmall, ''bar'' \<mapsto> Leaf] \<and>
   examineFile
     [''0000000000001000 <foo>:'',
      ''  1001:'' @ [CHR 0x09] @ ''callq  2000 <__morestack>'',
      ''0000000000002000 <bar>:''] = Inr (1, 0, 1, 0)"
proof -
  let ?ls = "[''0000000000001000 <foo>:'',
      ''  1001:'' @ [CHR 0x09] @ ''callq  2000 <__morestack>'',
      ''0000000000002000 <bar>:'']"
  have t: "DAList.impl_of (funcs (final_state ?ls)) = [(''foo'', SplitSmall), (''bar'', Leaf)]"
    by code_simp
  have "DAList.lookup (funcs (final_state ?ls)) = map_of [(''foo'', SplitSmall), (''bar'', Leaf)]"
    unfolding DAList.lookup.rep_eq t ..
  also have "\<dots> = [''foo'' \<mapsto> SplitSmall, ''bar'' \<mapsto> Leaf]"
    by (rule ext) simp
  finally have l: "DAList.lookup (funcs (final_state ?ls)) =
      [''foo'' \<mapsto> SplitSmall, ''bar'' \<mapsto> Leaf]" .
  have c: "examineFile ?ls = Inr (1, 0, 1, 0)"
    by code_simp
  show ?thesis by (rule conjI [OF t conjI [OF l c]])
qed

text \<open>
  C10.  A synthetic key is not checked against the table.  Three functions, \<open>f%1\<close>
  (with a call), \<open>f\<close> and \<open>f\<close>: when the input ends the table holds \<open>f%1\<close> as
  \<open>NoSplit\<close> and \<open>f\<close> as \<open>Leaf\<close>; recording the second \<open>f\<close> is a collision,
  the first of the file, and its entry goes under \<open>f%1\<close>, over the entry of the
  function of that name.  The table ends with two entries for three functions, and
  the four counts add up to two.
\<close>

theorem synthetic_key_overwrites:
  "map (FindStringSubmatch fnstart)
     [''0000000000001000 <f%1>:'',
      ''  1001:'' @ [CHR 0x09] @ ''callq  *%rax'',
      ''0000000000002000 <f>:'',
      ''0000000000003000 <f>:''] =
     [Some [''0000000000001000 <f%1>:'', ''f%1''], None,
      Some [''0000000000002000 <f>:'', ''f''], Some [''0000000000003000 <f>:'', ''f'']] \<and>
   scan_lines
     [''0000000000001000 <f%1>:'',
      ''  1001:'' @ [CHR 0x09] @ ''callq  *%rax'',
      ''0000000000002000 <f>:'',
      ''0000000000003000 <f>:''] =
     (\<lparr>seenShort = False, seenLong = False, seenCall = False,
       funcs = DAList.update ''f'' Leaf (DAList.update ''f%1'' NoSplit DAList.empty),
       collisions = 0\<rparr>, ''f'') \<and>
   final_state
     [''0000000000001000 <f%1>:'',
      ''  1001:'' @ [CHR 0x09] @ ''callq  *%rax'',
      ''0000000000002000 <f>:'',
      ''0000000000003000 <f>:''] =
     \<lparr>seenShort = False, seenLong = False, seenCall = False,
      funcs = DAList.update ''f'' Leaf (DAList.update ''f%1'' Leaf DAList.empty),
      collisions = 1\<rparr> \<and>
   DAList.impl_of (funcs (final_state
     [''0000000000001000 <f%1>:'',
      ''  1001:'' @ [CHR 0x09] @ ''callq  *%rax'',
      ''0000000000002000 <f>:'',
      ''0000000000003000 <f>:''])) = [(''f%1'', Leaf), (''f'', Leaf)] \<and>
   examineFile
     [''0000000000001000 <f%1>:'',
      ''  1001:'' @ [CHR 0x09] @ ''callq  *%rax'',
      ''0000000000002000 <f>:'',
      ''0000000000003000 <f>:''] = Inr (2, 0, 0, 0)"
  by code_simp

end
